theory Spec2Isabelle
  imports Main "HOL-Library.Sublist"
begin

section \<open>Text and character classes\<close>

text \<open>
  The program is \<open>src/path_fan_speed.py\<close>, a pass over the lines of a G-code file that
  tags fan-speed commands (\<open>M106\<close>) with the tool selected last (\<open>M108 Tn\<close>) and
  repeats the last fan speed after each tool change. The function modelled is
  \<open>process_lines\<close>; \<open>main\<close> only reads and writes the file.

  A Python \<open>str\<close> is modelled as a \<open>string\<close>, a list of 8-bit characters read as the
  code points U+0000 to U+00FF; texts with code points beyond U+00FF are outside the
  model. The character classes are the ones Python's \<open>str\<close> methods and the \<open>re\<close>
  module (on \<open>str\<close> patterns) use on these code points.
\<close>

definition LF :: string where
  "LF = [CHR 0x0A]"

definition CRLF :: string where
  "CRLF = [CHR 0x0D, CHR 0x0A]"

definition code_point :: "char \<Rightarrow> nat" where
  "code_point c = of_char c"

definition is_space :: "char \<Rightarrow> bool" where
  \<comment> \<open>\<open>str.isspace\<close>, \<open>\s\<close>: TAB, LF, VT, FF, CR, FS, GS, RS, US, space, NEL, NBSP.\<close>
  "is_space c = (code_point c \<in> {9, 10, 11, 12, 13, 28, 29, 30, 31, 32, 133, 160})"

definition is_digit :: "char \<Rightarrow> bool" where
  \<comment> \<open>\<open>\d\<close>: the decimal digits; below U+0100 these are 0 to 9.\<close>
  "is_digit c = (48 \<le> code_point c \<and> code_point c \<le> 57)"

definition is_word :: "char \<Rightarrow> bool" where
  \<comment> \<open>\<open>\w\<close>: alphanumeric (alphabetic, decimal, digit or numeric) or underscore.\<close>
  "is_word c = (let n = code_point c in
     (48 \<le> n \<and> n \<le> 57) \<or> (65 \<le> n \<and> n \<le> 90) \<or> n = 95 \<or> (97 \<le> n \<and> n \<le> 122) \<or>
     n \<in> {170, 178, 179, 181, 185, 186, 188, 189, 190} \<or>
     (192 \<le> n \<and> n \<le> 214) \<or> (216 \<le> n \<and> n \<le> 246) \<or> (248 \<le> n \<and> n \<le> 255))"

definition lit_M :: "char \<Rightarrow> bool" where
  \<comment> \<open>the literal \<open>M\<close> under \<open>re.IGNORECASE\<close>\<close>
  "lit_M c = (c = CHR ''M'' \<or> c = CHR ''m'')"

definition lit_T :: "char \<Rightarrow> bool" where
  \<comment> \<open>the literal \<open>T\<close> under \<open>re.IGNORECASE\<close>\<close>
  "lit_T c = (c = CHR ''T'' \<or> c = CHR ''t'')"

definition lit_S :: "char \<Rightarrow> bool" where
  \<comment> \<open>the literal \<open>S\<close> under \<open>(?i)\<close>\<close>
  "lit_S c = (c = CHR ''S'' \<or> c = CHR ''s'')"

definition word_end :: "string \<Rightarrow> bool" where
  \<comment> \<open>\<open>\b\<close> right after a word character: the rest is empty or starts with a
      non-word character.\<close>
  "word_end r = (case r of [] \<Rightarrow> True | c # _ \<Rightarrow> \<not> is_word c)"

definition lstrip :: "string \<Rightarrow> string" where
  "lstrip s = dropWhile is_space s"

definition rstrip :: "string \<Rightarrow> string" where
  "rstrip s = rev (dropWhile is_space (rev s))"

definition upper_char :: "char \<Rightarrow> string" where
  \<comment> \<open>\<open>str.upper\<close> on one character: a to z and the accented lower-case letters move
      down by 32, the sharp s becomes \<open>SS\<close>. The upper-case forms of U+00B5 and U+00FF
      lie beyond U+00FF; they are kept as they are, which is the same to the one use of
      \<open>upper\<close> here, a comparison with \<open>M106\<close>.\<close>
  "upper_char c = (let n = code_point c in
     if 97 \<le> n \<and> n \<le> 122 then [char_of (n - 32)]
     else if n = 223 then ''SS''
     else if 224 \<le> n \<and> n \<le> 254 \<and> n \<noteq> 247 then [char_of (n - 32)]
     else [c])"

definition upper :: "string \<Rightarrow> string" where
  "upper s = concat (map upper_char s)"

definition split_first :: "char \<Rightarrow> string \<Rightarrow> string list" where
  \<comment> \<open>\<open>s.split(sep, 1)\<close>: one part when \<open>sep\<close> does not occur, else the text before
      the first \<open>sep\<close> and the text after it.\<close>
  "split_first sep s =
     (if sep \<in> set s
      then [takeWhile (\<lambda>c. c \<noteq> sep) s, tl (dropWhile (\<lambda>c. c \<noteq> sep) s)]
      else [s])"

section \<open>The three regular expressions\<close>

text \<open>
  Each pattern is written as the scanner the backtracking matcher amounts to. In all three
  the greedy choice is the only one that can succeed: white space given back by \<open>\s*\<close>
  or \<open>\s+\<close> would have to match a letter, and a digit given back by \<open>\d+\<close> would have
  to be followed by \<open>\b\<close>, which does not hold between two digits.
\<close>

definition digits_then_end :: "string \<Rightarrow> (string \<times> string) option" where
  \<comment> \<open>\<open>(\d+)\b\<close> at the start of \<open>r\<close>: the digits matched and the text left.\<close>
  "digits_then_end r =
     (let ds = takeWhile is_digit r; rest = dropWhile is_digit r
      in if ds \<noteq> [] \<and> word_end rest then Some (ds, rest) else None)"

definition tool_match :: "string \<Rightarrow> string option" where
  \<comment> \<open>\<open>tool_re.match(stripped)\<close> with \<open>tool_re = ^\s*M108\s+T(\d+)\b\<close>, ignoring
      case; the result is \<open>group(1)\<close>.\<close>
  "tool_match s =
     (case dropWhile is_space s of
        m # c1 # c0 # c8 # r1 \<Rightarrow>
          if lit_M m \<and> c1 = CHR ''1'' \<and> c0 = CHR ''0'' \<and> c8 = CHR ''8'' then
            (case dropWhile is_space r1 of
               t # r3 \<Rightarrow>
                 if takeWhile is_space r1 \<noteq> [] \<and> lit_T t
                 then map_option fst (digits_then_end r3) else None
             | [] \<Rightarrow> None)
          else None
      | _ \<Rightarrow> None)"

definition speed_match :: "string \<Rightarrow> string option" where
  \<comment> \<open>\<open>(-?\d+(?:\.\d+)?)\b\<close> at the start of \<open>r\<close>, the result is the group. With a
      fraction that is followed by a word character the matcher backtracks to the integer
      part, which the dot ends.\<close>
  "speed_match r =
     (let sign = takeWhile (\<lambda>c. c = CHR ''-'') (take 1 r);
          r1 = drop (length sign) r;
          d1 = takeWhile is_digit r1;
          r2 = dropWhile is_digit r1;
          d2 = takeWhile is_digit (drop 1 r2);
          r4 = dropWhile is_digit (drop 1 r2)
      in if d1 = [] then None
         else if take 1 r2 = ''.'' \<and> d2 \<noteq> [] \<and> word_end r4 then Some (sign @ d1 @ ''.'' @ d2)
         else if word_end r2 then Some (sign @ d1)
         else None)"

fun speed_search :: "bool \<Rightarrow> string \<Rightarrow> string option" where
  \<comment> \<open>\<open>re.search(r"(?i)\bS(-?\d+(?:\.\d+)?)\b", code)\<close>, the result is \<open>group(1)\<close> of
      the leftmost match. The flag says whether the character before is a word character:
      \<open>\b\<close> before the letter holds when it is not.\<close>
  "speed_search prev_word [] = None"
| "speed_search prev_word (c # cs) =
     (if \<not> prev_word \<and> lit_S c then
        (case speed_match cs of
           Some g \<Rightarrow> Some g
         | None \<Rightarrow> speed_search (is_word c) cs)
      else speed_search (is_word c) cs)"

definition t_match :: "string \<Rightarrow> string option" where
  \<comment> \<open>\<open>\s*T\d+\b\<close> (ignoring case) at the start of \<open>s\<close>: the text after the match.\<close>
  "t_match s =
     (case dropWhile is_space s of
        t # r \<Rightarrow> if lit_T t then map_option snd (digits_then_end r) else None
      | [] \<Rightarrow> None)"

function remove_t :: "string \<Rightarrow> string" where
  \<comment> \<open>\<open>re.sub(r"(?i)\s*T\d+\b", "", code)\<close>: the matches, found left to right and not
      overlapping, are deleted. The pattern matches no empty text.\<close>
  "remove_t [] = []"
| "remove_t (c # cs) =
     (case t_match (c # cs) of
        Some rest \<Rightarrow> remove_t rest
      | None \<Rightarrow> c # remove_t cs)"
  by pat_completeness auto

termination remove_t
proof (relation "measure length")
  fix c cs rest
  assume "t_match (c # cs) = Some rest"
  then obtain t r0 where d: "dropWhile is_space (c # cs) = t # r0"
    and r: "rest = dropWhile is_digit r0"
    by (auto simp: t_match_def digits_then_end_def Let_def split: list.splits if_splits)
  have "length rest \<le> length r0"
    unfolding r by (rule length_dropWhile_le)
  moreover have "length (t # r0) \<le> length (c # cs)"
    unfolding d[symmetric] by (rule length_dropWhile_le)
  ultimately show "(rest, c # cs) \<in> measure length"
    by simp
qed simp_all

section \<open>The rewriter\<close>

record state =
  current_tool :: "string option"
  out :: "string list"
  last_fan_speed :: "string option"

definition init :: state where
  "init = \<lparr>current_tool = None, out = [], last_fan_speed = None\<rparr>"

text \<open>
  The loop keeps three variables, \<open>current_tool\<close>, \<open>out\<close> and \<open>last_fan_speed\<close>;
  they are the fields of the state. Each round first splits the line into \<open>stripped\<close>
  and \<open>eol\<close>: a line that ends in CRLF or in LF loses that terminator, and a line that
  ends in neither is kept whole and gets the terminator LF.
\<close>

definition eol_of :: "string \<Rightarrow> string" where
  "eol_of line = (if suffix CRLF line then CRLF else LF)"

definition stripped_of :: "string \<Rightarrow> string" where
  "stripped_of line =
     (if suffix CRLF line then take (length line - 2) line
      else if suffix LF line then take (length line - 1) line
      else line)"

text \<open>
  The pieces of the rewriting branch: the test for the command, the split at the first
  \<open>;\<close> into \<open>code\<close> and \<open>comment_suffix\<close>, and the new line put together from
  \<open>new_code\<close>, a space when a comment follows, and the comment.
\<close>

definition is_m106 :: "string \<Rightarrow> bool" where
  \<comment> \<open>\<open>stripped.lstrip().upper().startswith("M106")\<close>\<close>
  "is_m106 stripped = prefix ''M106'' (upper (lstrip stripped))"

definition code_of :: "string \<Rightarrow> string" where
  "code_of stripped = split_first CHR '';'' stripped ! 0"

definition comment_suffix_of :: "string \<Rightarrow> string" where
  "comment_suffix_of stripped =
     (let parts = split_first CHR '';'' stripped
      in if length parts = 2 then '';'' @ parts ! 1 else [])"

definition new_code_of :: "string \<Rightarrow> string \<Rightarrow> string" where
  "new_code_of tool code = rstrip (remove_t code) @ '' T'' @ tool"

definition new_line_of :: "string \<Rightarrow> string \<Rightarrow> string" where
  "new_line_of tool stripped =
     (let comment_suffix = comment_suffix_of stripped;
          new_code = new_code_of tool (code_of stripped)
      in new_code @ (if comment_suffix \<noteq> [] \<and> \<not> suffix '' '' new_code then '' '' else [])
           @ comment_suffix)"

definition body :: "state \<Rightarrow> string \<Rightarrow> state" where
  \<comment> \<open>one round of the loop over the lines: the tool-select branch, the rewriting
      branch, and the default branch that both fall through to\<close>
  "body st line =
     (let eol = eol_of line; stripped = stripped_of line
      in case tool_match stripped of
           Some tool \<Rightarrow>
             (case last_fan_speed st of
                Some speed \<Rightarrow>
                  st\<lparr>current_tool := Some tool,
                     out := out st @ [stripped @ eol, ''M106 S'' @ speed @ '' T'' @ tool @ eol]\<rparr>
              | None \<Rightarrow> st\<lparr>current_tool := Some tool, out := out st @ [stripped @ eol]\<rparr>)
         | None \<Rightarrow>
             (if is_m106 stripped \<and> current_tool st \<noteq> None then
                (case speed_search False (code_of stripped) of
                   Some speed \<Rightarrow>
                     st\<lparr>last_fan_speed := Some speed,
                        out := out st @ [new_line_of (the (current_tool st)) stripped @ eol]\<rparr>
                 | None \<Rightarrow> st\<lparr>out := out st @ [stripped @ eol]\<rparr>)
              else st\<lparr>out := out st @ [stripped @ eol]\<rparr>))"

definition process_lines :: "string list \<Rightarrow> string list" where
  "process_lines lines = out (foldl body init lines)"

section \<open>Notions used by the properties\<close>

text \<open>
  The three branches of the loop body, as conditions on the state before the line and on
  the line: the tool-select branch, the rewriting branch and the default branch.
\<close>

definition is_tool_select :: "string \<Rightarrow> bool" where
  "is_tool_select line = (tool_match (stripped_of line) \<noteq> None)"

definition is_fan_rewrite :: "state \<Rightarrow> string \<Rightarrow> bool" where
  "is_fan_rewrite st line =
     (\<not> is_tool_select line \<and> is_m106 (stripped_of line) \<and> current_tool st \<noteq> None \<and>
      speed_search False (code_of (stripped_of line)) \<noteq> None)"

definition is_default :: "state \<Rightarrow> string \<Rightarrow> bool" where
  "is_default st line = (\<not> is_tool_select line \<and> \<not> is_fan_rewrite st line)"

definition emitted :: "state \<Rightarrow> string \<Rightarrow> string list" where
  \<comment> \<open>the lines one round of the loop appends to \<open>out\<close>\<close>
  "emitted st line = drop (length (out st)) (out (body st line))"

definition all_digits :: "string \<Rightarrow> bool" where
  \<comment> \<open>the texts \<open>\d+\<close> matches\<close>
  "all_digits t = (t \<noteq> [] \<and> list_all is_digit t)"

definition is_speed_text :: "string \<Rightarrow> bool" where
  \<comment> \<open>the texts \<open>-?\d+(?:\.\d+)?\<close> matches as a whole\<close>
  "is_speed_text s = (speed_match s = Some s)"

fun double_space :: "string \<Rightarrow> bool" where
  \<comment> \<open>two adjacent spaces occur in the text\<close>
  "double_space (a # b # r) = ((a = CHR '' '' \<and> b = CHR '' '') \<or> double_space (b # r))"
| "double_space _ = False"

section \<open>Facts about the parts\<close>

lemma suffix_CRLF_LF: "suffix CRLF line \<Longrightarrow> suffix LF line"
  by (auto simp: suffix_def CRLF_def LF_def)

lemma stripped_eol: "suffix LF line \<Longrightarrow> stripped_of line @ eol_of line = line"
  by (auto simp: stripped_of_def eol_of_def suffix_def CRLF_def LF_def)

lemma stripped_eol_none: "\<not> suffix LF line \<Longrightarrow> stripped_of line = line \<and> eol_of line = LF"
  by (auto simp: stripped_of_def eol_of_def dest: suffix_CRLF_LF)

lemma emitted_line: "stripped_of line @ eol_of line = (if suffix LF line then line else line @ LF)"
  using stripped_eol stripped_eol_none by auto

lemma is_space_blank: "is_space CHR '' ''"
  by (simp add: is_space_def code_point_def)

lemma digit_not_space: "is_digit c \<Longrightarrow> \<not> is_space c"
  by (auto simp: is_digit_def is_space_def)

lemma takeWhile_absent: "x \<notin> set s \<Longrightarrow> takeWhile (\<lambda>c. c \<noteq> x) s = s"
  by (induction s) auto

lemma dropWhile_absent: "x \<notin> set s \<Longrightarrow> dropWhile (\<lambda>c. c \<noteq> x) s = []"
  by (induction s) auto

lemma code_of_takeWhile: "code_of s = takeWhile (\<lambda>c. c \<noteq> CHR '';'') s"
proof (cases "CHR '';'' \<in> set s")
  case True
  then show ?thesis by (simp add: code_of_def split_first_def)
next
  case False
  then show ?thesis
    using takeWhile_absent[of "CHR '';''" s]
    by (simp add: code_of_def split_first_def del: takeWhile_eq_all_conv)
qed

lemma comment_suffix_dropWhile: "comment_suffix_of s = dropWhile (\<lambda>c. c \<noteq> CHR '';'') s"
proof (cases "CHR '';'' \<in> set s")
  case True
  then have ne: "dropWhile (\<lambda>c. c \<noteq> CHR '';'') s \<noteq> []" by simp
  have "hd (dropWhile (\<lambda>c. c \<noteq> CHR '';'') s) = CHR '';''"
    using hd_dropWhile[OF ne] by simp
  with ne have "dropWhile (\<lambda>c. c \<noteq> CHR '';'') s =
      CHR '';'' # tl (dropWhile (\<lambda>c. c \<noteq> CHR '';'') s)"
    by (metis list.collapse)
  with True show ?thesis by (simp add: comment_suffix_of_def split_first_def Let_def)
next
  case False
  then show ?thesis
    using dropWhile_absent[of "CHR '';''" s]
    by (simp add: comment_suffix_of_def split_first_def Let_def del: dropWhile_eq_Nil_conv)
qed

lemma upper_char_consts:
  "upper_char CHR ''m'' = ''M''" "upper_char CHR ''M'' = ''M''"
  "upper_char CHR ''1'' = ''1''" "upper_char CHR ''0'' = ''0''"
  "upper_char CHR ''8'' = ''8''" "upper_char CHR ''6'' = ''6''"
  by code_simp+

lemma upper_lit_M: "lit_M m \<Longrightarrow> upper_char m = ''M''"
  by (auto simp: lit_M_def upper_char_consts)

text \<open>No text starts with both \<open>M108\<close> and \<open>M106\<close>.\<close>

lemma tool_select_not_m106: "tool_match s \<noteq> None \<Longrightarrow> \<not> is_m106 s"
  by (auto simp: tool_match_def is_m106_def lstrip_def upper_def upper_lit_M upper_char_consts
      split: list.splits if_splits)

lemma digits_then_end_digits: "digits_then_end r = Some (ds, rest) \<Longrightarrow> all_digits ds"
  by (auto simp: digits_then_end_def Let_def all_digits_def list_all_iff
      split: if_splits dest: set_takeWhileD)

lemma tool_match_digits: "tool_match s = Some t \<Longrightarrow> all_digits t"
  by (auto simp: tool_match_def split: list.splits if_splits dest: digits_then_end_digits)

subsection \<open>One round of the loop\<close>

lemma body_default:
  "is_default st line \<Longrightarrow> body st line = st\<lparr>out := out st @ [stripped_of line @ eol_of line]\<rparr>"
  by (auto simp: is_default_def is_fan_rewrite_def is_tool_select_def body_def Let_def
      split: option.splits)

lemma out_body: "out (body st line) = out st @ emitted st line"
  by (auto simp: emitted_def body_def Let_def split: option.splits)

lemma emitted_tool_speed:
  "tool_match (stripped_of line) = Some tool \<Longrightarrow> last_fan_speed st = Some speed \<Longrightarrow>
   emitted st line =
     [stripped_of line @ eol_of line, ''M106 S'' @ speed @ '' T'' @ tool @ eol_of line]"
  by (simp add: emitted_def body_def Let_def)

lemma emitted_tool_nospeed:
  "tool_match (stripped_of line) = Some tool \<Longrightarrow> last_fan_speed st = None \<Longrightarrow>
   emitted st line = [stripped_of line @ eol_of line]"
  by (simp add: emitted_def body_def Let_def)

lemma emitted_rewrite:
  "is_fan_rewrite st line \<Longrightarrow>
   emitted st line = [new_line_of (the (current_tool st)) (stripped_of line) @ eol_of line]"
  by (auto simp: is_fan_rewrite_def is_tool_select_def emitted_def body_def Let_def)

lemma emitted_no_tool: "tool_match (stripped_of line) = None \<Longrightarrow> length (emitted st line) = 1"
  by (auto simp: emitted_def body_def Let_def split: option.splits)

lemma body_fields:
  "current_tool (body st line) =
     (case tool_match (stripped_of line) of Some t \<Rightarrow> Some t | None \<Rightarrow> current_tool st)"
  "last_fan_speed (body st line) =
     (if is_fan_rewrite st line then speed_search False (code_of (stripped_of line))
      else last_fan_speed st)"
  by (auto simp: body_def Let_def is_fan_rewrite_def is_tool_select_def split: option.splits)

subsection \<open>The whole run\<close>

lemma length_run: "length (out st) + length lines \<le> length (out (foldl body st lines))"
proof (induction lines arbitrary: st)
  case Nil
  show ?case by simp
next
  case (Cons l ls)
  have "1 \<le> length (emitted st l)"
    by (cases "tool_match (stripped_of l)"; cases "last_fan_speed st")
       (auto simp: emitted_no_tool emitted_tool_speed emitted_tool_nospeed)
  then have "length (out st) + 1 \<le> length (out (body st l))"
    by (simp add: out_body)
  with Cons.IH[of "body st l"] show ?case by simp
qed

lemma tool_stays_set: "current_tool st \<noteq> None \<Longrightarrow> current_tool (foldl body st lines) \<noteq> None"
  by (induction lines arbitrary: st) (auto simp: body_fields split: option.splits)

lemma speed_stays_set:
  "last_fan_speed st \<noteq> None \<Longrightarrow> last_fan_speed (foldl body st lines) \<noteq> None"
  by (induction lines arbitrary: st) (auto simp: body_fields is_fan_rewrite_def)

lemma tool_digits_run:
  "(\<forall>t. current_tool st = Some t \<longrightarrow> all_digits t) \<Longrightarrow>
   current_tool (foldl body st lines) = Some t \<Longrightarrow> all_digits t"
proof (induction lines arbitrary: st)
  case Nil
  then show ?case by simp
next
  case (Cons l ls)
  have "\<forall>t. current_tool (body st l) = Some t \<longrightarrow> all_digits t"
    using Cons.prems(1) by (auto simp: body_fields split: option.splits dest: tool_match_digits)
  from Cons.IH[OF this] Cons.prems(2) show ?case by simp
qed

subsection \<open>Removing the tool parameter\<close>

lemma new_code_no_trailing_space: "all_digits tool \<Longrightarrow> \<not> suffix '' '' (new_code_of tool code)"
proof
  assume t: "all_digits tool" and s: "suffix '' '' (new_code_of tool code)"
  from t have ne: "tool \<noteq> []" and d: "is_digit (last tool)"
    by (auto simp: all_digits_def list_all_iff)
  from s ne have "last tool = CHR '' ''"
    by (auto simp: new_code_of_def suffix_def) (metis last.simps last_append list.simps(3))
  with d show False by (simp add: is_digit_def code_point_def)
qed

lemma t_match_skip_space: "is_space c \<Longrightarrow> t_match (c # s) = t_match s"
  by (simp add: t_match_def)

lemma t_match_suffix: "t_match s = Some r \<Longrightarrow> suffix r s"
  by (auto simp: t_match_def digits_then_end_def Let_def split: list.splits if_splits)
     (metis suffix_dropWhile suffix_Cons suffix_order.trans)

lemma double_space_Cons: "double_space s \<Longrightarrow> double_space (c # s)"
  by (cases s) auto

lemma double_space_suffix: "suffix r s \<Longrightarrow> double_space r \<Longrightarrow> double_space s"
  by (induction s) (auto simp: suffix_Cons double_space_Cons)

lemma double_space_append_left: "double_space r \<Longrightarrow> double_space (r @ s)"
  by (induction r rule: double_space.induct) auto

lemma double_space_prefix: "prefix r s \<Longrightarrow> double_space r \<Longrightarrow> double_space s"
  by (auto simp: prefix_def double_space_append_left)

lemma double_space_append:
  "double_space (r @ s) \<Longrightarrow>
   double_space r \<or> double_space s \<or>
   (r \<noteq> [] \<and> s \<noteq> [] \<and> last r = CHR '' '' \<and> hd s = CHR '' '')"
proof (induction r)
  case Nil
  then show ?case by simp
next
  case (Cons a r)
  show ?case
  proof (cases r)
    case Nil
    with Cons.prems show ?thesis by (cases s) auto
  next
    case (Cons b r')
    with Cons.prems Cons.IH show ?thesis by auto
  qed
qed

text \<open>
  A match of \<open>\s*T\d+\b\<close> is never preceded by white space: the scan would have matched
  one character earlier. So what stands before a removed match is no space.
\<close>

lemma remove_t_head_space:
  assumes "remove_t s = x # r" and "is_space c" and "t_match (c # s) = None"
  shows "\<exists>s'. s = x # s'"
proof (cases s)
  case Nil
  with assms(1) show ?thesis by simp
next
  case (Cons a s')
  from assms(2,3) have "t_match (a # s') = None"
    by (simp add: t_match_skip_space Cons)
  with assms(1) Cons show ?thesis by simp
qed

lemma remove_t_double_space: "double_space (remove_t s) \<Longrightarrow> double_space s"
proof (induction s rule: remove_t.induct)
  case 1
  then show ?case by simp
next
  case (2 c cs)
  show ?case
  proof (cases "t_match (c # cs)")
    case (Some rest)
    with 2 have "double_space rest" by simp
    with t_match_suffix[OF Some] show ?thesis by (rule double_space_suffix)
  next
    case None
    with "2.prems" have ds: "double_space (c # remove_t cs)" by simp
    show ?thesis
    proof (cases "remove_t cs")
      case Nil
      with ds show ?thesis by simp
    next
      case (Cons x r)
      with ds consider "c = CHR '' ''" "x = CHR '' ''" | "double_space (remove_t cs)"
        by auto
      then show ?thesis
      proof cases
        case 1
        from remove_t_head_space[OF Cons, of c] None 1 is_space_blank
        obtain s' where "cs = x # s'" by auto
        with 1 show ?thesis by simp
      next
        case 2
        with "2.IH"(1)[OF None] show ?thesis by (simp add: double_space_Cons)
      qed
    qed
  qed
qed

lemma rstrip_prefix: "prefix (rstrip s) s"
proof -
  have "suffix (dropWhile is_space (rev s)) (rev s)" by (rule suffix_dropWhile)
  then show ?thesis by (simp add: rstrip_def suffix_to_prefix)
qed

lemma rstrip_last: "rstrip s \<noteq> [] \<Longrightarrow> \<not> is_space (last (rstrip s))"
  unfolding rstrip_def
  by (metis hd_dropWhile last_rev rev_is_Nil_conv)

subsection \<open>Lines that are already tagged\<close>

lemma class_consts:
  "\<not> is_digit CHR '' ''" "\<not> is_word CHR '' ''" "\<not> is_digit CHR ''.''" "\<not> is_word CHR ''.''"
  "\<not> is_digit CHR ''-''" "\<not> is_digit CHR '';''" "\<not> is_space CHR ''.''" "\<not> is_space CHR ''-''"
  "\<not> is_space CHR ''M''" "\<not> is_space CHR ''1''" "\<not> is_space CHR ''0''" "\<not> is_space CHR ''6''"
  "\<not> is_space CHR ''S''" "\<not> is_space CHR ''T''"
  "is_word CHR ''M''" "is_word CHR ''1''" "is_word CHR ''0''" "is_word CHR ''6''"
  by (simp_all add: is_digit_def is_word_def is_space_def code_point_def)

lemma digit_not_lit_T: "is_digit c \<Longrightarrow> \<not> lit_T c"
  by (auto simp: is_digit_def lit_T_def code_point_def)

lemma digits_sep:
  "list_all is_digit ds \<Longrightarrow> \<not> is_digit x \<Longrightarrow>
   takeWhile is_digit (ds @ x # r) = ds \<and> dropWhile is_digit (ds @ x # r) = x # r"
  by (induction ds) auto

lemma digits_all:
  "list_all is_digit ds \<Longrightarrow> takeWhile is_digit ds = ds \<and> dropWhile is_digit ds = []"
  by (induction ds) auto

lemma sign_prefix: "takeWhile P (take 1 s) @ drop (length (takeWhile P (take 1 s))) s = s"
  by (cases s) auto

lemma speed_match_shape:
  assumes "speed_match r = Some s"
  shows "\<exists>sign_part d1 frac. s = sign_part @ d1 @ frac \<and> (sign_part = [] \<or> sign_part = ''-'') \<and> all_digits d1 \<and>
     (frac = [] \<or> (\<exists>d2. frac = CHR ''.'' # d2 \<and> all_digits d2))"
proof -
  define sign_part where "sign_part = takeWhile (\<lambda>c. c = CHR ''-'') (take 1 r)"
  define r1 where "r1 = drop (length sign_part) r"
  define d1 where "d1 = takeWhile is_digit r1"
  define r2 where "r2 = dropWhile is_digit r1"
  define d2 where "d2 = takeWhile is_digit (drop 1 r2)"
  define r4 where "r4 = dropWhile is_digit (drop 1 r2)"
  have sgc: "sign_part = [] \<or> sign_part = ''-''" unfolding sign_part_def by (cases r) auto
  have dd1: "list_all is_digit d1"
    unfolding d1_def by (auto simp: list_all_iff dest: set_takeWhileD)
  have dd2: "list_all is_digit d2"
    unfolding d2_def by (auto simp: list_all_iff dest: set_takeWhileD)
  from assms have m: "(if d1 = [] then None
         else if take 1 r2 = ''.'' \<and> d2 \<noteq> [] \<and> word_end r4 then Some (sign_part @ d1 @ ''.'' @ d2)
         else if word_end r2 then Some (sign_part @ d1)
         else None) = Some s"
    unfolding speed_match_def Let_def sign_part_def r1_def d1_def r2_def d2_def r4_def
    by simp
  then have ne: "d1 \<noteq> []" by (auto split: if_splits)
  from m ne consider "s = sign_part @ d1 @ ''.'' @ d2" "d2 \<noteq> []" | "s = sign_part @ d1"
    by (auto split: if_splits)
  then show ?thesis
  proof cases
    case 1
    with sgc dd1 dd2 ne show ?thesis
      unfolding all_digits_def
      by (intro exI[of _ sign_part] exI[of _ d1] exI[of _ "CHR ''.'' # d2"]) auto
  next
    case 2
    with sgc dd1 ne show ?thesis
      unfolding all_digits_def by (intro exI[of _ sign_part] exI[of _ d1] exI[of _ "[]"]) auto
  qed
qed

lemma speed_text_parts:
  "is_speed_text s \<Longrightarrow>
   \<exists>sign_part d1 frac. s = sign_part @ d1 @ frac \<and> (sign_part = [] \<or> sign_part = ''-'') \<and> all_digits d1 \<and>
     (frac = [] \<or> (\<exists>d2. frac = CHR ''.'' # d2 \<and> all_digits d2))"
  unfolding is_speed_text_def by (rule speed_match_shape)

lemma speed_match_whole:
  assumes "sign_part = [] \<or> sign_part = ''-''" and "all_digits d1"
    and "frac = [] \<or> (\<exists>d2. frac = CHR ''.'' # d2 \<and> all_digits d2)"
  shows "speed_match (sign_part @ d1 @ frac) = Some (sign_part @ d1 @ frac)"
proof -
  from assms(2) obtain a ds where d1: "d1 = a # ds" and a: "is_digit a" and ds: "list_all is_digit ds"
    by (cases d1) (auto simp: all_digits_def)
  from a have am: "a \<noteq> CHR ''-''" using class_consts(5) by auto
  note e1 = digits_all[OF ds]
  show ?thesis
  proof (cases "frac = []")
    case True
    from assms(1) a am show ?thesis
      by (auto simp: speed_match_def Let_def True d1 word_end_def class_consts e1)
  next
    case False
    with assms(3) obtain d2 where f: "frac = CHR ''.'' # d2" and d2: "all_digits d2" by auto
    from d2 have d2l: "list_all is_digit d2" and d2n: "d2 \<noteq> []" by (auto simp: all_digits_def)
    note e2 = digits_sep[OF ds class_consts(3), of d2] digits_all[OF d2l]
    from assms(1) a am d2n show ?thesis
      by (auto simp: speed_match_def Let_def f d1 word_end_def class_consts e2)
  qed
qed

lemma speed_match_is_speed_text: "speed_match r = Some g \<Longrightarrow> is_speed_text g"
  using speed_match_shape[of r g] speed_match_whole unfolding is_speed_text_def by blast

lemma speed_search_is_speed_text: "speed_search pw code = Some g \<Longrightarrow> is_speed_text g"
  by (induction pw code rule: speed_search.induct)
     (auto split: if_splits option.splits dest: speed_match_is_speed_text)

lemma speed_text_run:
  "(\<forall>g. last_fan_speed st = Some g \<longrightarrow> is_speed_text g) \<Longrightarrow>
   last_fan_speed (foldl body st lines) = Some g \<Longrightarrow> is_speed_text g"
proof (induction lines arbitrary: st)
  case Nil
  then show ?case by simp
next
  case (Cons l ls)
  have "\<forall>g. last_fan_speed (body st l) = Some g \<longrightarrow> is_speed_text g"
    using Cons.prems(1) by (auto simp: body_fields dest: speed_search_is_speed_text)
  from Cons.IH[OF this] Cons.prems(2) show ?case by simp
qed

lemma speed_match_parts:
  assumes "sign_part = [] \<or> sign_part = ''-''" and "all_digits d1"
    and "frac = [] \<or> (\<exists>d2. frac = CHR ''.'' # d2 \<and> all_digits d2)"
  shows "speed_match (sign_part @ d1 @ frac @ CHR '' '' # r) = Some (sign_part @ d1 @ frac)"
proof -
  from assms(2) obtain a ds where d1: "d1 = a # ds" and a: "is_digit a" and ds: "list_all is_digit ds"
    by (cases d1) (auto simp: all_digits_def)
  from a have am: "a \<noteq> CHR ''-''" using class_consts(5) by auto
  show ?thesis
  proof (cases "frac = []")
    case True
    from assms(1) show ?thesis
      using digits_sep[OF ds class_consts(1), of r] a am
      by (auto simp: speed_match_def Let_def True d1 word_end_def class_consts)
  next
    case False
    with assms(3) obtain d2 where f: "frac = CHR ''.'' # d2" and d2: "all_digits d2" by auto
    from d2 have d2l: "list_all is_digit d2" and d2n: "d2 \<noteq> []" by (auto simp: all_digits_def)
    from assms(1) show ?thesis
      using digits_sep[OF ds class_consts(3), of "d2 @ CHR '' '' # r"] digits_sep[OF d2l class_consts(1), of r] a am d2n
      by (auto simp: speed_match_def Let_def f d1 word_end_def class_consts)
  qed
qed

lemma speed_match_ext: "is_speed_text g \<Longrightarrow> speed_match (g @ CHR '' '' # r) = Some g"
  using speed_text_parts[of g] speed_match_parts by (metis append.assoc)

lemma speed_text_chars:
  assumes "is_speed_text g"
  shows "g \<noteq> [] \<and> is_digit (last g) \<and> (\<forall>c\<in>set g. is_digit c \<or> c = CHR ''-'' \<or> c = CHR ''.'')"
proof -
  from speed_text_parts[OF assms] obtain sign_part d1 frac where g: "g = sign_part @ d1 @ frac"
    and sgc: "sign_part = [] \<or> sign_part = ''-''" and d1: "all_digits d1"
    and fr: "frac = [] \<or> (\<exists>d2. frac = CHR ''.'' # d2 \<and> all_digits d2)" by blast
  from d1 have l1: "is_digit (last d1)" and n1: "d1 \<noteq> []" by (auto simp: all_digits_def list_all_iff)
  have "is_digit (last g)"
  proof (cases "frac = []")
    case True
    with g n1 l1 show ?thesis by simp
  next
    case False
    with fr obtain d2 where "frac = CHR ''.'' # d2" "all_digits d2" by auto
    then show ?thesis using g by (auto simp: all_digits_def list_all_iff)
  qed
  moreover have "\<forall>c\<in>set g. is_digit c \<or> c = CHR ''-'' \<or> c = CHR ''.''"
    using g sgc d1 fr by (auto simp: all_digits_def list_all_iff)
  ultimately show ?thesis using g n1 by simp
qed


lemma speed_search_tagged:
  "is_speed_text g \<Longrightarrow> speed_search False (''M106 S'' @ g @ CHR '' '' # r) = Some g"
  by (simp add: lit_S_def class_consts speed_match_ext)

lemma remove_t_keep:
  "\<not> is_space c \<Longrightarrow> \<not> lit_T c \<Longrightarrow> remove_t (c # s) = c # remove_t s"
  by (simp add: t_match_def)

lemma remove_t_plain:
  "\<forall>c\<in>set u. \<not> is_space c \<and> \<not> lit_T c \<Longrightarrow> remove_t (u @ v) = u @ remove_t v"
  by (induction u) (simp_all add: remove_t_keep del: remove_t.simps)

lemma remove_t_tool:
  assumes "all_digits t"
  shows "remove_t ('' T'' @ t) = []"
proof -
  from assms have "list_all is_digit t" and ne: "t \<noteq> []" by (auto simp: all_digits_def)
  from digits_all[OF this(1)] have tw: "takeWhile is_digit t = t"
    and dw: "dropWhile is_digit t = []" by blast+
  have "digits_then_end t = Some (t, [])"
    unfolding digits_then_end_def Let_def tw dw using ne by (simp add: word_end_def)
  then show ?thesis
    by (simp add: t_match_def is_space_blank lit_T_def class_consts)
qed

lemma body_rewrite:
  "stripped_of line = s \<Longrightarrow> tool_match s = None \<Longrightarrow> is_m106 s \<Longrightarrow>
   current_tool st = Some tool \<Longrightarrow> speed_search False (code_of s) = Some speed \<Longrightarrow>
   body st line =
     st\<lparr>last_fan_speed := Some speed, out := out st @ [new_line_of tool s @ eol_of line]\<rparr>"
  by (simp add: body_def Let_def)

lemma speed_text_plain:
  assumes "is_speed_text g"
  shows "\<forall>c\<in>set g. \<not> is_space c \<and> \<not> lit_T c"
proof
  fix c assume "c \<in> set g"
  with speed_text_chars[OF assms] have "is_digit c \<or> c = CHR ''-'' \<or> c = CHR ''.''" by blast
  then show "\<not> is_space c \<and> \<not> lit_T c"
    using digit_not_space digit_not_lit_T by (auto simp: class_consts lit_T_def)
qed

lemma remove_t_tagged:
  assumes "is_speed_text g" and "all_digits t"
  shows "remove_t (''M106 S'' @ g @ '' T'' @ t) = ''M106 S'' @ g"
proof -
  have "remove_t (''M106 S'' @ g @ '' T'' @ t) = ''M106 S'' @ remove_t (g @ '' T'' @ t)"
    by (simp add: t_match_def is_space_blank class_consts lit_T_def)
  also have "remove_t (g @ '' T'' @ t) = g @ remove_t ('' T'' @ t)"
    using speed_text_plain[OF assms(1)] by (rule remove_t_plain)
  finally show ?thesis using remove_t_tool[OF assms(2)] by simp
qed

lemma rstrip_id: "s \<noteq> [] \<Longrightarrow> \<not> is_space (last s) \<Longrightarrow> rstrip s = s"
  by (cases s rule: rev_cases) (auto simp: rstrip_def)

subsection \<open>What the scanners match\<close>

text \<open>
  The scanners, read as patterns: a scanner succeeds exactly on the texts that split into
  the pieces of its pattern, with \<open>\b\<close> holding after the last digit. For the speed
  pattern the matcher prefers the alternative with a fraction and takes the one without
  only when no fraction can be matched.
\<close>

lemma digit_is_word: "is_digit c \<Longrightarrow> is_word c"
  by (simp add: is_digit_def is_word_def Let_def)

lemma lit_T_not_space: "lit_T c \<Longrightarrow> \<not> is_space c"
  by (auto simp: lit_T_def class_consts is_space_def code_point_def)

lemma lit_M_not_space: "lit_M c \<Longrightarrow> \<not> is_space c"
  by (auto simp: lit_M_def class_consts is_space_def code_point_def)

lemma spaces_sep:
  "list_all is_space ws \<Longrightarrow> \<not> is_space x \<Longrightarrow>
   takeWhile is_space (ws @ x # r) = ws \<and> dropWhile is_space (ws @ x # r) = x # r"
  by (induction ws) auto

lemma digits_word_end:
  "list_all is_digit ds \<Longrightarrow> word_end rest \<Longrightarrow>
   takeWhile is_digit (ds @ rest) = ds \<and> dropWhile is_digit (ds @ rest) = rest"
  by (induction ds) (auto simp: word_end_def split: list.splits dest: digit_is_word)

lemma digits_then_end_iff:
  "digits_then_end r = Some (ds, rest) \<longleftrightarrow> r = ds @ rest \<and> all_digits ds \<and> word_end rest"
proof
  assume a: "digits_then_end r = Some (ds, rest)"
  then have "ds = takeWhile is_digit r" "rest = dropWhile is_digit r" "word_end rest"
    by (auto simp: digits_then_end_def Let_def split: if_splits)
  with digits_then_end_digits[OF a] show "r = ds @ rest \<and> all_digits ds \<and> word_end rest"
    by simp
next
  assume a: "r = ds @ rest \<and> all_digits ds \<and> word_end rest"
  then have l: "list_all is_digit ds" and n: "ds \<noteq> []" and w: "word_end rest" and r: "r = ds @ rest"
    by (auto simp: all_digits_def)
  note e = digits_word_end[OF l w]
  show "digits_then_end r = Some (ds, rest)"
    unfolding digits_then_end_def Let_def r using n w by (simp add: e)
qed

lemma t_match_iff:
  "t_match s = Some rest \<longleftrightarrow>
   (\<exists>ws t ds. s = ws @ t # ds @ rest \<and> list_all is_space ws \<and> lit_T t \<and> all_digits ds \<and>
      word_end rest)"
proof
  assume a: "t_match s = Some rest"
  then obtain t r ds where d: "dropWhile is_space s = t # r" and t: "lit_T t"
    and e: "digits_then_end r = Some (ds, rest)"
    by (auto simp: t_match_def split: list.splits if_splits)
  have "s = takeWhile is_space s @ t # r" using d by (metis takeWhile_dropWhile_id)
  moreover have "list_all is_space (takeWhile is_space s)"
    by (auto simp: list_all_iff dest: set_takeWhileD)
  ultimately show "\<exists>ws t ds. s = ws @ t # ds @ rest \<and> list_all is_space ws \<and> lit_T t \<and>
      all_digits ds \<and> word_end rest"
    using t e unfolding digits_then_end_iff by blast
next
  assume "\<exists>ws t ds. s = ws @ t # ds @ rest \<and> list_all is_space ws \<and> lit_T t \<and> all_digits ds \<and>
      word_end rest"
  then obtain ws t ds where s: "s = ws @ t # ds @ rest" and ws: "list_all is_space ws"
    and t: "lit_T t" and r: "all_digits ds" "word_end rest" by blast
  note e = spaces_sep[OF ws lit_T_not_space[OF t], of "ds @ rest"]
  have "digits_then_end (ds @ rest) = Some (ds, rest)"
    using r by (simp add: digits_then_end_iff)
  then show "t_match s = Some rest"
    unfolding t_match_def s using t by (simp add: e)
qed

lemma tool_match_iff:
  "tool_match s = Some ds \<longleftrightarrow>
   (\<exists>ws m ws2 t rest. s = ws @ m # ''108'' @ ws2 @ t # ds @ rest \<and> list_all is_space ws \<and>
      lit_M m \<and> ws2 \<noteq> [] \<and> list_all is_space ws2 \<and> lit_T t \<and> all_digits ds \<and> word_end rest)"
proof
  assume a: "tool_match s = Some ds"
  then obtain m r1 t r3 rest where d: "dropWhile is_space s = m # ''108'' @ r1" and m: "lit_M m"
    and d2: "dropWhile is_space r1 = t # r3" and n: "takeWhile is_space r1 \<noteq> []" and t: "lit_T t"
    and e: "digits_then_end r3 = Some (ds, rest)"
    by (auto simp: tool_match_def split: list.splits if_splits)
  have "s = takeWhile is_space s @ m # ''108'' @ r1" using d by (metis takeWhile_dropWhile_id)
  moreover have "r1 = takeWhile is_space r1 @ t # r3" using d2 by (metis takeWhile_dropWhile_id)
  moreover have "list_all is_space (takeWhile is_space s)" "list_all is_space (takeWhile is_space r1)"
    by (auto simp: list_all_iff dest: set_takeWhileD)
  ultimately show "\<exists>ws m ws2 t rest. s = ws @ m # ''108'' @ ws2 @ t # ds @ rest \<and>
      list_all is_space ws \<and> lit_M m \<and> ws2 \<noteq> [] \<and> list_all is_space ws2 \<and> lit_T t \<and>
      all_digits ds \<and> word_end rest"
    using m n t e unfolding digits_then_end_iff by (metis append_Cons)
next
  assume "\<exists>ws m ws2 t rest. s = ws @ m # ''108'' @ ws2 @ t # ds @ rest \<and> list_all is_space ws \<and>
      lit_M m \<and> ws2 \<noteq> [] \<and> list_all is_space ws2 \<and> lit_T t \<and> all_digits ds \<and> word_end rest"
  then obtain ws m ws2 t rest where s: "s = ws @ m # ''108'' @ ws2 @ t # ds @ rest"
    and ws: "list_all is_space ws" and m: "lit_M m" and n: "ws2 \<noteq> []"
    and ws2: "list_all is_space ws2" and t: "lit_T t" and r: "all_digits ds" "word_end rest"
    by blast
  note e1 = spaces_sep[OF ws lit_M_not_space[OF m], of "CHR ''1'' # CHR ''0'' # CHR ''8'' # ws2 @ t # ds @ rest"]
  note e2 = spaces_sep[OF ws2 lit_T_not_space[OF t], of "ds @ rest"]
  have "digits_then_end (ds @ rest) = Some (ds, rest)"
    using r by (simp add: digits_then_end_iff)
  then show "tool_match s = Some ds"
    unfolding tool_match_def s using m t n by (simp add: e1 e2)
qed


lemma speed_match_unfold:
  assumes "sign_part = [] \<or> sign_part = ''-''" and "all_digits d1"
    and "rest = [] \<or> \<not> is_digit (hd rest)"
  shows "speed_match (sign_part @ d1 @ rest) =
     (if take 1 rest = ''.'' \<and> takeWhile is_digit (drop 1 rest) \<noteq> [] \<and>
         word_end (dropWhile is_digit (drop 1 rest))
      then Some (sign_part @ d1 @ ''.'' @ takeWhile is_digit (drop 1 rest))
      else if word_end rest then Some (sign_part @ d1) else None)"
proof -
  from assms(2) obtain a ds where d1: "d1 = a # ds" and a: "is_digit a"
    and ds: "list_all is_digit ds"
    by (cases d1) (auto simp: all_digits_def)
  from a have am: "a \<noteq> CHR ''-''" using class_consts(5) by auto
  have e: "takeWhile is_digit (ds @ rest) = ds \<and> dropWhile is_digit (ds @ rest) = rest"
  proof (cases rest)
    case Nil
    then show ?thesis using digits_all[OF ds] by simp
  next
    case (Cons x r')
    with assms(3) have "\<not> is_digit x" by simp
    from digits_sep[OF ds this] Cons show ?thesis by simp
  qed
  from assms(1) a am show ?thesis
    by (auto simp: speed_match_def Let_def d1 e)
qed

lemma fraction_iff:
  "(\<exists>d2 rest2. rest = CHR ''.'' # d2 @ rest2 \<and> all_digits d2 \<and> word_end rest2) \<longleftrightarrow>
   take 1 rest = ''.'' \<and> takeWhile is_digit (drop 1 rest) \<noteq> [] \<and>
   word_end (dropWhile is_digit (drop 1 rest))"
proof
  assume "\<exists>d2 rest2. rest = CHR ''.'' # d2 @ rest2 \<and> all_digits d2 \<and> word_end rest2"
  then obtain d2 rest2 where r: "rest = CHR ''.'' # d2 @ rest2" and d: "all_digits d2"
    and w: "word_end rest2" by blast
  from d have l: "list_all is_digit d2" and n: "d2 \<noteq> []" by (auto simp: all_digits_def)
  note e = digits_word_end[OF l w]
  show "take 1 rest = ''.'' \<and> takeWhile is_digit (drop 1 rest) \<noteq> [] \<and>
     word_end (dropWhile is_digit (drop 1 rest))"
    unfolding r using n w by (simp add: e)
next
  assume a: "take 1 rest = ''.'' \<and> takeWhile is_digit (drop 1 rest) \<noteq> [] \<and>
     word_end (dropWhile is_digit (drop 1 rest))"
  then obtain r' where r: "rest = CHR ''.'' # r'" by (cases rest) auto
  have "r' = takeWhile is_digit r' @ dropWhile is_digit r'" by simp
  moreover have "all_digits (takeWhile is_digit r')"
    using a r by (auto simp: all_digits_def list_all_iff dest: set_takeWhileD)
  ultimately show "\<exists>d2 rest2. rest = CHR ''.'' # d2 @ rest2 \<and> all_digits d2 \<and> word_end rest2"
    using a r by (intro exI[of _ "takeWhile is_digit r'"] exI[of _ "dropWhile is_digit r'"]) simp
qed

lemma speed_match_iff:
  "speed_match r = Some g \<longleftrightarrow>
   (\<exists>sign_part d1 rest. r = sign_part @ d1 @ rest \<and> (sign_part = [] \<or> sign_part = ''-'') \<and>
      all_digits d1 \<and>
      ((\<exists>d2 rest2. rest = CHR ''.'' # d2 @ rest2 \<and> all_digits d2 \<and> word_end rest2 \<and>
          g = sign_part @ d1 @ CHR ''.'' # d2) \<or>
       (\<not> (\<exists>d2 rest2. rest = CHR ''.'' # d2 @ rest2 \<and> all_digits d2 \<and> word_end rest2) \<and>
          word_end rest \<and> g = sign_part @ d1)))"
  (is "?L \<longleftrightarrow> ?R")
proof
  assume ?L
  define sign_part where "sign_part = takeWhile (\<lambda>c. c = CHR ''-'') (take 1 r)"
  define r1 where "r1 = drop (length sign_part) r"
  define d1 where "d1 = takeWhile is_digit r1"
  define rest where "rest = dropWhile is_digit r1"
  have s1: "r = sign_part @ r1"
    using sign_prefix[of "\<lambda>c. c = CHR ''-''" r] unfolding sign_part_def r1_def by simp
  have s2: "r1 = d1 @ rest" unfolding d1_def rest_def by simp
  have sgc: "sign_part = [] \<or> sign_part = ''-''" unfolding sign_part_def by (cases r) auto
  have dd1: "list_all is_digit d1"
    unfolding d1_def by (auto simp: list_all_iff dest: set_takeWhileD)
  have ne: "d1 \<noteq> []"
    using \<open>?L\<close> unfolding speed_match_def Let_def d1_def r1_def sign_part_def
    by (auto split: if_splits)
  with dd1 have ad: "all_digits d1" by (simp add: all_digits_def)
  have rd: "rest = [] \<or> \<not> is_digit (hd rest)"
    unfolding rest_def using hd_dropWhile[of is_digit r1] by blast
  from \<open>?L\<close> have m: "(if take 1 rest = ''.'' \<and> takeWhile is_digit (drop 1 rest) \<noteq> [] \<and>
         word_end (dropWhile is_digit (drop 1 rest))
      then Some (sign_part @ d1 @ ''.'' @ takeWhile is_digit (drop 1 rest))
      else if word_end rest then Some (sign_part @ d1) else None) = Some g"
    using speed_match_unfold[OF sgc ad rd] s1 s2 by simp
  show ?R
  proof (cases "take 1 rest = ''.'' \<and> takeWhile is_digit (drop 1 rest) \<noteq> [] \<and>
         word_end (dropWhile is_digit (drop 1 rest))")
    case True
    then obtain r' where r': "rest = CHR ''.'' # r'" by (cases rest) auto
    from True m have g: "g = sign_part @ d1 @ CHR ''.'' # takeWhile is_digit r'"
      using r' by simp
    have "rest = CHR ''.'' # takeWhile is_digit r' @ dropWhile is_digit r'" using r' by simp
    moreover have "all_digits (takeWhile is_digit r')"
      using True r' by (auto simp: all_digits_def list_all_iff dest: set_takeWhileD)
    moreover have "word_end (dropWhile is_digit r')" using True r' by simp
    ultimately show ?thesis using s1 s2 sgc ad g by blast
  next
    case False
    with m have "word_end rest" and "g = sign_part @ d1" by (auto split: if_splits)
    moreover from False have "\<not> (\<exists>d2 rest2. rest = CHR ''.'' # d2 @ rest2 \<and> all_digits d2 \<and>
        word_end rest2)"
      unfolding fraction_iff .
    ultimately show ?thesis using s1 s2 sgc ad by blast
  qed
next
  assume ?R
  then obtain sign_part d1 rest where r: "r = sign_part @ d1 @ rest"
    and sgc: "sign_part = [] \<or> sign_part = ''-''" and ad: "all_digits d1"
    and alt: "(\<exists>d2 rest2. rest = CHR ''.'' # d2 @ rest2 \<and> all_digits d2 \<and> word_end rest2 \<and>
          g = sign_part @ d1 @ CHR ''.'' # d2) \<or>
       (\<not> (\<exists>d2 rest2. rest = CHR ''.'' # d2 @ rest2 \<and> all_digits d2 \<and> word_end rest2) \<and>
          word_end rest \<and> g = sign_part @ d1)" by blast
  have rd: "rest = [] \<or> \<not> is_digit (hd rest)"
    using alt by (auto simp: word_end_def class_consts split: list.splits dest: digit_is_word)
  from alt show ?L
  proof
    assume "\<exists>d2 rest2. rest = CHR ''.'' # d2 @ rest2 \<and> all_digits d2 \<and> word_end rest2 \<and>
          g = sign_part @ d1 @ CHR ''.'' # d2"
    then obtain d2 rest2 where r2: "rest = CHR ''.'' # d2 @ rest2" and d2: "all_digits d2"
      and w: "word_end rest2" and g: "g = sign_part @ d1 @ CHR ''.'' # d2" by blast
    from d2 have l: "list_all is_digit d2" by (simp add: all_digits_def)
    have c: "take 1 rest = ''.'' \<and> takeWhile is_digit (drop 1 rest) \<noteq> [] \<and>
        word_end (dropWhile is_digit (drop 1 rest))"
      using r2 d2 w fraction_iff[of rest] by blast
    have "takeWhile is_digit (drop 1 rest) = d2"
      unfolding r2 using digits_word_end[OF l w] by simp
    with c show ?L unfolding r speed_match_unfold[OF sgc ad rd] g by simp
  next
    assume a: "\<not> (\<exists>d2 rest2. rest = CHR ''.'' # d2 @ rest2 \<and> all_digits d2 \<and> word_end rest2) \<and>
          word_end rest \<and> g = sign_part @ d1"
    then have "\<not> (take 1 rest = ''.'' \<and> takeWhile is_digit (drop 1 rest) \<noteq> [] \<and>
        word_end (dropWhile is_digit (drop 1 rest)))"
      unfolding fraction_iff by blast
    with a show ?L unfolding r speed_match_unfold[OF sgc ad rd] by simp
  qed
qed

section \<open>The properties\<close>

text \<open>
  The output of the first run on the four lines of the second scenario is not a fixed
  point: the second run rewrites no line, but inserts one more synthesized line after
  \<open>M108 T2\<close>.
\<close>

theorem rerun_inserts_again:
  "process_lines (process_lines
     [''M106 S50'' @ LF, ''M108 T1'' @ LF, ''M106 S75'' @ LF, ''M108 T2'' @ LF]) =
   [''M106 S50'' @ LF, ''M108 T1'' @ LF, ''M106 S75 T1'' @ LF, ''M108 T2'' @ LF,
    ''M106 S75 T2'' @ LF, ''M106 S75 T2'' @ LF] \<and>
   process_lines (process_lines
     [''M106 S50'' @ LF, ''M108 T1'' @ LF, ''M106 S75'' @ LF, ''M108 T2'' @ LF]) \<noteq>
   process_lines [''M106 S50'' @ LF, ''M108 T1'' @ LF, ''M106 S75'' @ LF, ''M108 T2'' @ LF]"
  by code_simp

text \<open>
  C1, as amended. A fan-speed line that already has the tagged form
  \<open>M106 S<speed> T<tool>\<close> (the form of the synthesized lines; the speed a signed
  decimal text, the tool a digit text) and ends in LF or CRLF, processed while that tool
  is the current tool, is emitted unchanged and saves its speed: a second run rewrites no
  such line. Nothing is said of the whole output: a second run inserts synthesized lines
  again.
\<close>

theorem tagged_line_stable:
  assumes "is_speed_text speed" and "all_digits tool" and "current_tool st = Some tool"
    and "stripped_of line = ''M106 S'' @ speed @ '' T'' @ tool" and "suffix LF line"
  shows "body st line = st\<lparr>last_fan_speed := Some speed, out := out st @ [line]\<rparr>"
proof -
  let ?s = "''M106 S'' @ speed @ '' T'' @ tool"
  from speed_text_chars[OF assms(1)] have sn: "speed \<noteq> []" and sl: "is_digit (last speed)"
    and sc: "\<forall>c\<in>set speed. is_digit c \<or> c = CHR ''-'' \<or> c = CHR ''.''" by blast+
  from assms(2) have td: "\<forall>c\<in>set tool. is_digit c" by (auto simp: all_digits_def list_all_iff)
  have nosemi: "CHR '';'' \<notin> set ?s"
    using sc td class_consts(6) by auto
  have code: "code_of ?s = ?s"
    using takeWhile_absent[OF nosemi] by (simp only: code_of_takeWhile)
  have comment: "comment_suffix_of ?s = []"
    using dropWhile_absent[OF nosemi] by (simp only: comment_suffix_dropWhile)
  have tm: "tool_match ?s = None"
    by (simp add: tool_match_def class_consts)
  have m106: "is_m106 ?s"
    by (simp add: is_m106_def lstrip_def class_consts upper_def upper_char_consts)
  have ss: "speed_search False (code_of ?s) = Some speed"
    unfolding code using speed_search_tagged[OF assms(1), of "CHR ''T'' # tool"] by simp
  have rs: "rstrip (''M106 S'' @ speed) = ''M106 S'' @ speed"
    using sn sl by (intro rstrip_id) (auto dest: digit_not_space)
  have nl: "new_line_of tool ?s = ?s"
    unfolding new_line_of_def Let_def comment code new_code_of_def
      remove_t_tagged[OF assms(1,2)] rs by simp
  have "?s @ eol_of line = line"
    using stripped_eol[OF assms(5)] by (simp only: assms(4))
  with body_rewrite[OF assms(4) tm m106 assms(3) ss] show ?thesis
    by (simp only: nl)
qed

theorem tagged_line_stable_witness:
  "is_speed_text ''38.25'' \<and> all_digits ''2'' \<and>
   current_tool (foldl body init [''M108 T2'' @ LF]) = Some ''2'' \<and>
   body (foldl body init [''M108 T2'' @ LF]) (''M106 S38.25 T2'' @ LF) =
     (foldl body init [''M108 T2'' @ LF])\<lparr>last_fan_speed := Some ''38.25'',
        out := out (foldl body init [''M108 T2'' @ LF]) @ [''M106 S38.25 T2'' @ LF]\<rparr>"
proof -
  have a: "is_speed_text ''38.25''" by code_simp
  have b: "all_digits ''2''" by code_simp
  have c: "current_tool (foldl body init [''M108 T2'' @ LF]) = Some ''2''" by code_simp
  have d: "stripped_of (''M106 S38.25 T2'' @ LF) = ''M106 S'' @ ''38.25'' @ '' T'' @ ''2''"
    by code_simp
  have e: "suffix LF (''M106 S38.25 T2'' @ LF)" by code_simp
  from tagged_line_stable[OF a b c d e] a b c show ?thesis by blast
qed



text \<open>
  C2. On the four lines \<open>M106 S50\<close>, \<open>M108 T1\<close>, \<open>M106 S75\<close>, \<open>M108 T2\<close>, each
  ended by LF, \<open>process_lines\<close> returns exactly the five lines \<open>M106 S50\<close>, \<open>M108 T1\<close>,
  \<open>M106 S75 T1\<close>, \<open>M108 T2\<close>, \<open>M106 S75 T2\<close>, each ended by LF, in that order.
\<close>

theorem scenario_two:
  "process_lines [''M106 S50'' @ LF, ''M108 T1'' @ LF, ''M106 S75'' @ LF, ''M108 T2'' @ LF] =
   [''M106 S50'' @ LF, ''M108 T1'' @ LF, ''M106 S75 T1'' @ LF, ''M108 T2'' @ LF,
    ''M106 S75 T2'' @ LF]"
  by code_simp

text \<open>
  The line \<open>G1 X5\<close> with no terminator takes the default branch and is not emitted as it
  is: the loop gives every line that does not end in LF the terminator LF.
\<close>

theorem unterminated_line_gets_newline:
  "is_default init ''G1 X5'' \<and> process_lines [''G1 X5''] = [''G1 X5'' @ LF] \<and>
   process_lines [''G1 X5''] \<noteq> [''G1 X5'']"
  by code_simp

text \<open>
  C3, as amended. A line that takes the default branch (neither a tool-select line nor a
  fan-speed line with a speed parameter while a tool is set) leaves the state as it is but
  for one line appended to the output: the input line itself, byte for byte, when it ends
  in LF (CRLF included), and the input line followed by LF when it does not.
\<close>

theorem default_pass_through:
  "is_default st line \<Longrightarrow>
   body st line = st\<lparr>out := out st @ [if suffix LF line then line else line @ LF]\<rparr>"
  using body_default[of st line] emitted_line[of line] by simp

theorem default_pass_through_witness:
  "is_default init (''G1 X5'' @ CRLF) \<and>
   body init (''G1 X5'' @ CRLF) = init\<lparr>out := out init @ [''G1 X5'' @ CRLF]\<rparr>"
proof -
  have d: "is_default init (''G1 X5'' @ CRLF)" by code_simp
  have s: "suffix LF (''G1 X5'' @ CRLF)" by code_simp
  show ?thesis using default_pass_through[OF d] d s by simp
qed

text \<open>
  C4. The removal of the existing tool parameter should take whole tokens only. The
  pattern \<open>\s*T\d+\b\<close> has no word boundary before the \<open>T\<close>: after \<open>M108 T0\<close>, the
  line \<open>M106 S50 PT5\<close> loses the \<open>T5\<close> of its token \<open>PT5\<close>.
\<close>

theorem embedded_tool_token_removed:
  "process_lines [''M108 T0'' @ LF, ''M106 S50 PT5'' @ LF] =
   [''M108 T0'' @ LF, ''M106 S50 P T0'' @ LF]"
  by code_simp

text \<open>
  The fan-speed line \<open>M106 S50\<close> with no terminator, met before any tool-select line, is
  not emitted as it is: LF is added.
\<close>

theorem untagged_fan_line_gets_newline:
  "current_tool init = None \<and> is_m106 (stripped_of ''M106 S50'') \<and>
   emitted init ''M106 S50'' = [''M106 S50'' @ LF] \<and>
   emitted init ''M106 S50'' \<noteq> [''M106 S50''] \<and>
   process_lines [''M106 S50''] \<noteq> [''M106 S50'']"
  by code_simp

text \<open>
  C5, as amended. A fan-speed line processed while \<open>current_tool\<close> is unset changes
  nothing in the state but the output, \<open>last_fan_speed\<close> is not updated, whatever speed
  parameter the line carries; the line appended to the output is the input line itself
  when it ends in LF (CRLF included) and the input line followed by LF when it does not.
\<close>

theorem fan_line_without_tool:
  "current_tool st = None \<Longrightarrow> is_m106 (stripped_of line) \<Longrightarrow>
   body st line = st\<lparr>out := out st @ [if suffix LF line then line else line @ LF]\<rparr>"
  using tool_select_not_m106[of "stripped_of line"] emitted_line[of line]
  by (auto simp: body_def Let_def split: option.splits)

theorem fan_line_without_tool_witness:
  "current_tool init = None \<and> is_m106 (stripped_of (''M106 S50'' @ LF)) \<and>
   body init (''M106 S50'' @ LF) = init\<lparr>out := out init @ [''M106 S50'' @ LF]\<rparr> \<and>
   last_fan_speed (body init (''M106 S50'' @ LF)) = None"
proof -
  have a: "current_tool init = None" by (simp add: init_def)
  have b: "is_m106 (stripped_of (''M106 S50'' @ LF))" by code_simp
  have s: "suffix LF (''M106 S50'' @ LF)" by code_simp
  have "body init (''M106 S50'' @ LF) = init\<lparr>out := out init @ [''M106 S50'' @ LF]\<rparr>"
    using fan_line_without_tool[OF a b] s by simp
  then show ?thesis using a b by (simp add: init_def)
qed

text \<open>
  C6. \<open>process_lines\<close> is a total function with no failing branch. Every input line
  appends its own lines to the output, one line or two; two only for a tool-select line
  met while \<open>last_fan_speed\<close> is set, and then they are the tool-select line followed by
  the synthesized fan-speed line. So the output has at least as many lines as the input.
\<close>

theorem no_line_dropped:
  "length lines \<le> length (process_lines lines) \<and>
   process_lines (lines @ [line]) = process_lines lines @ emitted (foldl body init lines) line \<and>
   (length (emitted st line) = 1 \<or> length (emitted st line) = 2) \<and>
   (length (emitted st line) = 2 \<longrightarrow>
      (\<exists>tool speed. tool_match (stripped_of line) = Some tool \<and> last_fan_speed st = Some speed \<and>
         emitted st line =
           [stripped_of line @ eol_of line, ''M106 S'' @ speed @ '' T'' @ tool @ eol_of line]))"
proof -
  have a: "length lines \<le> length (process_lines lines)"
    using length_run[of init lines] by (simp add: process_lines_def)
  have b: "process_lines (lines @ [line]) =
      process_lines lines @ emitted (foldl body init lines) line"
    by (simp add: process_lines_def out_body)
  have c: "length (emitted st line) = 1 \<or> length (emitted st line) = 2"
    by (cases "tool_match (stripped_of line)"; cases "last_fan_speed st")
       (auto simp: emitted_no_tool emitted_tool_speed emitted_tool_nospeed)
  have d: "length (emitted st line) = 2 \<longrightarrow>
      (\<exists>tool speed. tool_match (stripped_of line) = Some tool \<and> last_fan_speed st = Some speed \<and>
         emitted st line =
           [stripped_of line @ eol_of line, ''M106 S'' @ speed @ '' T'' @ tool @ eol_of line])"
    by (cases "tool_match (stripped_of line)"; cases "last_fan_speed st")
       (auto simp: emitted_no_tool emitted_tool_speed emitted_tool_nospeed)
  from a b c d show ?thesis by blast
qed

theorem no_line_dropped_witness:
  "length (emitted (foldl body init [''M108 T1'' @ LF, ''M106 S75'' @ LF]) (''M108 T2'' @ LF)) = 2 \<and>
   emitted (foldl body init [''M108 T1'' @ LF, ''M106 S75'' @ LF]) (''M108 T2'' @ LF) =
     [''M108 T2'' @ LF, ''M106 S75 T2'' @ LF]"
proof -
  let ?st = "foldl body init [''M108 T1'' @ LF, ''M106 S75'' @ LF]"
  let ?l = "''M108 T2'' @ LF"
  have two: "length (emitted ?st ?l) = 2" by code_simp
  have t: "tool_match (stripped_of ?l) = Some ''2''" by code_simp
  have sp: "last_fan_speed ?st = Some ''75''" by code_simp
  have e: "stripped_of ?l = ''M108 T2''" "eol_of ?l = LF" by code_simp+
  from no_line_dropped[of "[]" ?l ?st] two
  obtain tool speed where h1: "tool_match (stripped_of ?l) = Some tool"
    and h2: "last_fan_speed ?st = Some speed"
    and h3: "emitted ?st ?l =
      [stripped_of ?l @ eol_of ?l, ''M106 S'' @ speed @ '' T'' @ tool @ eol_of ?l]"
    by blast
  from h1 t have tt: "tool = ''2''" by (metis option.inject)
  from h2 sp have ss: "speed = ''75''" by (metis option.inject)
  have "emitted ?st ?l = [''M108 T2'' @ LF, ''M106 S'' @ ''75'' @ '' T'' @ ''2'' @ LF]"
    using h3 unfolding tt ss e .
  then show ?thesis using two by simp
qed

text \<open>
  C7. In any run, a fan-speed line that is rewritten (speed parameter present, tool set)
  and whose content holds a \<open>;\<close> is emitted as the rewritten code portion (which does not
  end in a space), one space, everything from the first \<open>;\<close> on as it was, and the
  line's terminator. After \<open>M108 T0\<close>, the line \<open>M106 S30 T9 ; cool\<close> becomes
  \<open>M106 S30 T0 ; cool\<close>.
\<close>

theorem comment_preserved:
  assumes "st = foldl body init pre" and "is_fan_rewrite st line"
    and "CHR '';'' \<in> set (stripped_of line)"
  shows "\<exists>tool new_code. current_tool st = Some tool \<and>
     new_code = new_code_of tool (takeWhile (\<lambda>c. c \<noteq> CHR '';'') (stripped_of line)) \<and>
     \<not> suffix '' '' new_code \<and>
     emitted st line =
       [new_code @ '' '' @ dropWhile (\<lambda>c. c \<noteq> CHR '';'') (stripped_of line) @ eol_of line]"
proof -
  from assms(2) obtain tool where t: "current_tool st = Some tool"
    by (auto simp: is_fan_rewrite_def)
  have "\<forall>t. current_tool init = Some t \<longrightarrow> all_digits t" by (simp add: init_def)
  from tool_digits_run[OF this] t assms(1) have d: "all_digits tool" by simp
  let ?nc = "new_code_of tool (takeWhile (\<lambda>c. c \<noteq> CHR '';'') (stripped_of line))"
  have ns: "\<not> suffix '' '' ?nc" using d by (rule new_code_no_trailing_space)
  have cs: "dropWhile (\<lambda>c. c \<noteq> CHR '';'') (stripped_of line) \<noteq> []"
    using assms(3) by simp
  have "emitted st line = [new_line_of tool (stripped_of line) @ eol_of line]"
    using emitted_rewrite[OF assms(2)] t by simp
  also have "new_line_of tool (stripped_of line) =
      ?nc @ '' '' @ dropWhile (\<lambda>c. c \<noteq> CHR '';'') (stripped_of line)"
    using ns cs by (simp add: new_line_of_def Let_def code_of_takeWhile comment_suffix_dropWhile)
  finally show ?thesis using t ns by simp
qed

theorem comment_preserved_witness:
  "is_fan_rewrite (foldl body init [''M108 T0'' @ LF]) (''M106 S30 T9 ; cool'' @ LF) \<and>
   CHR '';'' \<in> set (stripped_of (''M106 S30 T9 ; cool'' @ LF)) \<and>
   emitted (foldl body init [''M108 T0'' @ LF]) (''M106 S30 T9 ; cool'' @ LF) =
     [''M106 S30 T0 ; cool'' @ LF]"
proof -
  let ?st = "foldl body init [''M108 T0'' @ LF]"
  let ?l = "''M106 S30 T9 ; cool'' @ LF"
  have a: "is_fan_rewrite ?st ?l" by code_simp
  have b: "CHR '';'' \<in> set (stripped_of ?l)" by code_simp
  have t: "current_tool ?st = Some ''0''" by code_simp
  have n: "new_code_of ''0'' (takeWhile (\<lambda>c. c \<noteq> CHR '';'') (stripped_of ?l)) = ''M106 S30 T0''"
    by code_simp
  have d: "dropWhile (\<lambda>c. c \<noteq> CHR '';'') (stripped_of ?l) @ eol_of ?l = ''; cool'' @ LF"
    by code_simp
  from comment_preserved[OF refl a b] t n d show ?thesis using a b by auto
qed

text \<open>
  C8. A tool-select line met while a speed is saved appends two lines: itself, and the
  synthesized line \<open>M106 S<saved speed> T<new tool>\<close>, the new tool being the digits of
  the tool-select line. Both end in the same terminator, CRLF when the tool-select line
  ends in CRLF and LF otherwise.
\<close>

theorem synthesized_line_form:
  "tool_match (stripped_of line) = Some tool \<Longrightarrow> last_fan_speed st = Some speed \<Longrightarrow>
   all_digits tool \<and>
   emitted st line =
     [stripped_of line @ (if suffix CRLF line then CRLF else LF),
      ''M106 S'' @ speed @ '' T'' @ tool @ (if suffix CRLF line then CRLF else LF)]"
  using emitted_tool_speed[of line tool st speed] tool_match_digits[of "stripped_of line" tool]
  by (simp add: eol_of_def)

theorem synthesized_line_form_witness:
  "tool_match (stripped_of (''M108 T2'' @ CRLF)) = Some ''2'' \<and>
   last_fan_speed (foldl body init [''M108 T1'' @ LF, ''M106 S38.25'' @ LF]) = Some ''38.25'' \<and>
   emitted (foldl body init [''M108 T1'' @ LF, ''M106 S38.25'' @ LF]) (''M108 T2'' @ CRLF) =
     [''M108 T2'' @ CRLF, ''M106 S38.25 T2'' @ CRLF]"
proof -
  let ?st = "foldl body init [''M108 T1'' @ LF, ''M106 S38.25'' @ LF]"
  let ?l = "''M108 T2'' @ CRLF"
  have t: "tool_match (stripped_of ?l) = Some ''2''" by code_simp
  have sp: "last_fan_speed ?st = Some ''38.25''" by code_simp
  have c: "suffix CRLF ?l" by code_simp
  have s: "stripped_of ?l = ''M108 T2''" by code_simp
  from synthesized_line_form[OF t sp] c s t sp show ?thesis by simp
qed

text \<open>
  C9. One round of the loop changes \<open>current_tool\<close> only on a tool-select line and
  \<open>last_fan_speed\<close> only on a fan-speed line with a speed parameter while a tool is set;
  a field that is set stays set through any further lines; a line of the default branch
  leaves both fields as they are.
\<close>

theorem state_changes:
  "(current_tool (body st line) \<noteq> current_tool st \<longrightarrow> is_tool_select line) \<and>
   (last_fan_speed (body st line) \<noteq> last_fan_speed st \<longrightarrow> is_fan_rewrite st line) \<and>
   (current_tool st \<noteq> None \<longrightarrow> current_tool (foldl body st lines) \<noteq> None) \<and>
   (last_fan_speed st \<noteq> None \<longrightarrow> last_fan_speed (foldl body st lines) \<noteq> None) \<and>
   (is_default st line \<longrightarrow>
      current_tool (body st line) = current_tool st \<and>
      last_fan_speed (body st line) = last_fan_speed st)"
  using tool_stays_set[of st lines] speed_stays_set[of st lines]
  by (auto simp: body_fields is_default_def is_tool_select_def split: option.splits)

theorem state_changes_witness:
  "current_tool (body init (''M108 T1'' @ LF)) \<noteq> current_tool init \<and>
   is_tool_select (''M108 T1'' @ LF) \<and>
   last_fan_speed (body (body init (''M108 T1'' @ LF)) (''M106 S75'' @ LF)) \<noteq>
     last_fan_speed (body init (''M108 T1'' @ LF)) \<and>
   is_fan_rewrite (body init (''M108 T1'' @ LF)) (''M106 S75'' @ LF) \<and>
   current_tool (body init (''M108 T1'' @ LF)) \<noteq> None \<and>
   current_tool (foldl body (body init (''M108 T1'' @ LF)) [''M106'' @ LF, ''G1 X5'' @ LF]) \<noteq> None \<and>
   last_fan_speed (body (body init (''M108 T1'' @ LF)) (''M106 S75'' @ LF)) \<noteq> None \<and>
   last_fan_speed (foldl body (body (body init (''M108 T1'' @ LF)) (''M106 S75'' @ LF))
     [''M106'' @ LF, ''M108 T2'' @ LF]) \<noteq> None \<and>
   is_default (body init (''M108 T1'' @ LF)) (''M106'' @ LF) \<and>
   current_tool (body (body init (''M108 T1'' @ LF)) (''M106'' @ LF)) =
     current_tool (body init (''M108 T1'' @ LF)) \<and>
   last_fan_speed (body (body init (''M108 T1'' @ LF)) (''M106'' @ LF)) =
     last_fan_speed (body init (''M108 T1'' @ LF))"
proof -
  let ?l1 = "''M108 T1'' @ LF"
  let ?l2 = "''M106 S75'' @ LF"
  let ?l3 = "''M106'' @ LF"
  let ?s1 = "body init ?l1"
  let ?s2 = "body ?s1 ?l2"
  have a: "current_tool ?s1 \<noteq> current_tool init" by code_simp
  have b: "last_fan_speed ?s2 \<noteq> last_fan_speed ?s1" by code_simp
  have c: "current_tool ?s1 \<noteq> None" by code_simp
  have d: "last_fan_speed ?s2 \<noteq> None" by code_simp
  have e: "is_default ?s1 ?l3" by code_simp
  from state_changes[of init ?l1 "[]"] a have 1: "is_tool_select ?l1" by blast
  from state_changes[of ?s1 ?l2 "[?l3, ''G1 X5'' @ LF]"] b c
  have 2: "is_fan_rewrite ?s1 ?l2"
    and 3: "current_tool (foldl body ?s1 [?l3, ''G1 X5'' @ LF]) \<noteq> None" by blast+
  from state_changes[of ?s2 ?l3 "[?l3, ''M108 T2'' @ LF]"] d
  have 4: "last_fan_speed (foldl body ?s2 [?l3, ''M108 T2'' @ LF]) \<noteq> None" by blast
  from state_changes[of ?s1 ?l3 "[]"] e
  have 5: "current_tool (body ?s1 ?l3) = current_tool ?s1"
    and 6: "last_fan_speed (body ?s1 ?l3) = last_fan_speed ?s1" by blast+
  from a b c d e 1 2 3 4 5 6 show ?thesis by blast
qed

text \<open>
  No rewriting leaves two adjacent spaces that were not there: there is no fan-speed line
  whose code portion has no two adjacent spaces and whose code portion has them after the
  removal of the tool parameter.
\<close>

theorem removal_makes_no_double_space:
  "\<not> (\<exists>st line. is_fan_rewrite st line \<and>
         \<not> double_space (code_of (stripped_of line)) \<and>
         double_space (remove_t (code_of (stripped_of line))))"
  using remove_t_double_space by blast

text \<open>
  C10, as amended. Tool-parameter removal takes the white space before the removed token
  with it and leaves no double space: when the code portion of a fan-speed line has no
  two adjacent spaces, the rewritten code portion (tool parameter removed, trailing white
  space trimmed, new tool parameter appended) has none either. The code portion
  \<open>M106 S50 T3 P1\<close> becomes \<open>M106 S50 P1 T0\<close> for tool 0.
\<close>

theorem rewritten_code_no_double_space:
  assumes "all_digits tool" and "\<not> double_space code"
  shows "\<not> double_space (new_code_of tool code)"
proof
  assume ds: "double_space (new_code_of tool code)"
  let ?r = "rstrip (remove_t code)"
  have nr: "\<not> double_space ?r"
    using assms(2) remove_t_double_space double_space_prefix[OF rstrip_prefix] by blast
  from assms(1) have td: "\<forall>c\<in>set tool. c \<noteq> CHR '' ''"
    using digit_not_space is_space_blank by (auto simp: all_digits_def list_all_iff)
  have nt: "\<not> double_space ('' T'' @ tool)"
  proof
    assume "double_space ('' T'' @ tool)"
    then have "double_space tool" by (cases tool) auto
    with td show False by (induction tool rule: double_space.induct) auto
  qed
  from ds have "double_space (?r @ ('' T'' @ tool))" by (simp add: new_code_of_def)
  from double_space_append[OF this] nr nt have "?r \<noteq> []" and "last ?r = CHR '' ''"
    by auto
  with rstrip_last[of "remove_t code"] is_space_blank show False by simp
qed

theorem rewritten_code_no_double_space_witness:
  "all_digits ''0'' \<and> \<not> double_space ''M106 S50 T3 P1'' \<and>
   new_code_of ''0'' ''M106 S50 T3 P1'' = ''M106 S50 P1 T0'' \<and>
   \<not> double_space (new_code_of ''0'' ''M106 S50 T3 P1'')"
proof -
  have a: "all_digits ''0''" by code_simp
  have b: "\<not> double_space ''M106 S50 T3 P1''" by code_simp
  have c: "new_code_of ''0'' ''M106 S50 T3 P1'' = ''M106 S50 P1 T0''" by code_simp
  from rewritten_code_no_double_space[OF a b] a b c show ?thesis by blast
qed

end
